theory Spec2Isabelle
  imports Complex_Main "HOL-Library.Word"
begin

unbundle bit_operations_syntax

section \<open>Python values of the notebook\<close>

text \<open>
  The notebook \<^verbatim>\<open>video-understanding.ipynb\<close> is three code cells run top to bottom:
  frame extraction, request construction, cost report. Each cell is embedded as a function
  of the values it reads; an exception that leaves a cell is a value of \<open>py_error\<close>.
\<close>

datatype py_error = ZeroDivisionError | ValueError | OverflowError | CvError

text \<open>
  A Python \<^verbatim>\<open>float\<close>: a finite double, taken as the exact rational it denotes, or one of
  the three special values.
\<close>

datatype pyfloat = Finite rat | PosInf | NegInf | NaN

text \<open>
  \<^verbatim>\<open>v // w\<close> on floats. A zero divisor raises before anything else is looked at; an
  infinite or NaN dividend gives NaN; a finite dividend over an infinite divisor gives
  \<open>0\<close> or \<open>-1\<close> by the signs.

  For finite operands the interpreter computes \<^verbatim>\<open>(v - fmod(v, w)) / w\<close> in double
  arithmetic, where \<^verbatim>\<open>fmod\<close> is exact and the subtraction and the division each round
  with a relative error of at most \<open>2 ^ -53\<close>, and snaps the result to the nearest whole
  number. The result is a double:
  \<^item> while the floor of the exact quotient is below \<open>2 ^ 51\<close> in size, the two roundings
    move the computed quotient by less than one half and the result is that floor;
  \<^item> from \<open>2 ^ 1025\<close> on the division overflows and the result is an infinity, on which
    \<^verbatim>\<open>int\<close> raises \<^verbatim>\<open>OverflowError\<close>;
  \<^item> in between the result is a rounded double, which can differ from the floor of the
    exact quotient (\<^verbatim>\<open>1e17 // 3\<close> is \<open>33333333333333332\<close>, and
    \<^verbatim>\<open>4369412.584864132 // 1.714994521602413e-09\<close> is \<open>2547770578754706\<close>, one below
    the floor). The model does not compute it: it is what the parameter \<open>round_quot\<close>
    returns for the two operands.
\<close>

definition exact_range :: int where
  "exact_range = 2 ^ 51"

definition overflow_range :: int where
  "overflow_range = 2 ^ 1025"

fun float_floordiv ::
  "(rat \<Rightarrow> rat \<Rightarrow> pyfloat) \<Rightarrow> pyfloat \<Rightarrow> pyfloat \<Rightarrow> py_error + pyfloat" where
  "float_floordiv round_quot v (Finite w) =
     (if w = 0 then Inl ZeroDivisionError
      else (case v of
              Finite a \<Rightarrow>
                (let q = \<lfloor>a / w\<rfloor> in
                 if \<bar>q\<bar> < exact_range then Inr (Finite (of_int q))
                 else if overflow_range \<le> \<bar>q\<bar> then Inr (if 0 < q then PosInf else NegInf)
                 else Inr (round_quot a w))
            | _ \<Rightarrow> Inr NaN))"
| "float_floordiv round_quot (Finite a) PosInf = Inr (Finite (if a < 0 then - 1 else 0))"
| "float_floordiv round_quot (Finite a) NegInf = Inr (Finite (if 0 < a then - 1 else 0))"
| "float_floordiv round_quot _ _ = Inr NaN"

text \<open>\<^verbatim>\<open>int(x)\<close> on a float truncates towards zero and rejects NaN and the infinities.\<close>

fun py_int :: "pyfloat \<Rightarrow> py_error + int" where
  "py_int (Finite a) = Inr (if 0 \<le> a then \<lfloor>a\<rfloor> else \<lceil>a\<rceil>)"
| "py_int NaN = Inl ValueError"
| "py_int PosInf = Inl OverflowError"
| "py_int NegInf = Inl OverflowError"

section \<open>Frame extraction\<close>

text \<open>
  \<^verbatim>\<open>frame_skip = max(1, int(fps // target_fps))\<close>. The rate \<^verbatim>\<open>fps\<close> comes from
  \<^verbatim>\<open>video.get(cv2.CAP_PROP_FPS)\<close> and is a float; an integer \<^verbatim>\<open>target_fps\<close> such as the
  notebook's \<^verbatim>\<open>1\<close> is converted to a float by \<^verbatim>\<open>//\<close>.
\<close>

definition frame_skip ::
  "(rat \<Rightarrow> rat \<Rightarrow> pyfloat) \<Rightarrow> pyfloat \<Rightarrow> pyfloat \<Rightarrow> py_error + int" where
  "frame_skip round_quot fps target_fps =
     (case float_floordiv round_quot fps target_fps of
        Inl e \<Rightarrow> Inl e
      | Inr q \<Rightarrow> (case py_int q of
                   Inl e \<Rightarrow> Inl e
                 | Inr i \<Rightarrow> Inr (max 1 i)))"

text \<open>
  The capture object \<^verbatim>\<open>cv2.VideoCapture\<close>, as far as the cell uses it: whether it is
  open, the rate it reports for \<^verbatim>\<open>CAP_PROP_FPS\<close>, the frames that \<^verbatim>\<open>read()\<close> still
  delivers before it first reports failure (end of stream or an undecodable frame), and
  how often \<^verbatim>\<open>release()\<close> was called on it.
\<close>

record 'f capture =
  opened :: bool
  prop_fps :: pyfloat
  stream :: "'f list"
  releases :: nat

definition isOpened :: "'f capture \<Rightarrow> bool" where
  "isOpened v = opened v"

definition get_fps :: "'f capture \<Rightarrow> pyfloat" where
  "get_fps v = prop_fps v"

text \<open>\<^verbatim>\<open>success, frame = video.read()\<close>: \<open>None\<close> stands for \<^verbatim>\<open>(False, None)\<close>.\<close>

definition read :: "'f capture \<Rightarrow> 'f option \<times> 'f capture" where
  "read v =
     (if opened v then
        (case stream v of
           [] \<Rightarrow> (None, v)
         | frame # rest \<Rightarrow> (Some frame, v\<lparr>stream := rest\<rparr>))
      else (None, v))"

definition release :: "'f capture \<Rightarrow> 'f capture" where
  "release v = v\<lparr>opened := False, releases := releases v + 1\<rparr>"

subsection \<open>Base64\<close>

type_synonym byte = "8 word"

definition b64_alphabet :: string where
  "b64_alphabet = ''ABCDEFGHIJKLMNOPQRSTUVWXYZabcdefghijklmnopqrstuvwxyz0123456789+/''"

text \<open>The character of a six-bit value; the encoder only asks for values below 64.\<close>

definition b64_char :: "byte \<Rightarrow> char" where
  "b64_char s = b64_alphabet ! unat s"

text \<open>
  \<^verbatim>\<open>base64.b64encode(buffer).decode("utf-8")\<close>: the standard alphabet of RFC 4648, three
  bytes to four characters, the last group padded with \<^verbatim>\<open>=\<close>. The output is ASCII, so
  decoding it as UTF-8 gives the same characters and never fails.
\<close>

fun b64encode :: "byte list \<Rightarrow> string" where
  "b64encode [] = []"
| "b64encode [a] =
     [b64_char (drop_bit 2 a), b64_char (push_bit 4 (a AND 3)), CHR ''='', CHR ''='']"
| "b64encode [a, b] =
     [b64_char (drop_bit 2 a), b64_char (push_bit 4 (a AND 3) OR drop_bit 4 b),
      b64_char (push_bit 2 (b AND 15)), CHR ''='']"
| "b64encode (a # b # c # rest) =
     [b64_char (drop_bit 2 a), b64_char (push_bit 4 (a AND 3) OR drop_bit 4 b),
      b64_char (push_bit 2 (b AND 15) OR drop_bit 6 c), b64_char (c AND 63)]
     @ b64encode rest"

text \<open>
  The receiving side is not part of the notebook. The decoder below is the strict
  decoder of RFC 4648: groups of four characters of the alphabet, padding only in the
  last group, anything else rejected.
\<close>

fun index_of :: "'a \<Rightarrow> 'a list \<Rightarrow> nat option" where
  "index_of x [] = None"
| "index_of x (y # ys) = (if x = y then Some 0 else map_option Suc (index_of x ys))"

definition b64_value :: "char \<Rightarrow> byte option" where
  "b64_value c = map_option of_nat (index_of c b64_alphabet)"

fun b64decode :: "string \<Rightarrow> byte list option" where
  "b64decode [] = Some []"
| "b64decode (c1 # c2 # c3 # c4 # rest) =
     (case (b64_value c1, b64_value c2) of
        (Some s1, Some s2) \<Rightarrow>
          (if c3 = CHR ''='' then
             (if c4 = CHR ''='' \<and> rest = [] then Some [push_bit 2 s1 OR drop_bit 4 s2]
              else None)
           else
             (case b64_value c3 of
                None \<Rightarrow> None
              | Some s3 \<Rightarrow>
                  (if c4 = CHR ''='' then
                     (if rest = [] then
                        Some [push_bit 2 s1 OR drop_bit 4 s2, push_bit 4 s2 OR drop_bit 2 s3]
                      else None)
                   else
                     (case b64_value c4 of
                        None \<Rightarrow> None
                      | Some s4 \<Rightarrow>
                          map_option
                            (\<lambda>bs. (push_bit 2 s1 OR drop_bit 4 s2)
                                   # (push_bit 4 s2 OR drop_bit 2 s3)
                                   # (push_bit 6 s3 OR s4) # bs)
                            (b64decode rest)))))
      | _ \<Rightarrow> None)"
| "b64decode _ = None"

text \<open>What a receiver does with a data URI: take the prefix off, if it is there.\<close>

definition strip_prefix :: "string \<Rightarrow> string \<Rightarrow> string option" where
  "strip_prefix p u = (if take (length p) u = p then Some (drop (length p) u) else None)"

subsection \<open>The sampling loop\<close>

text \<open>
  The variables of the cell. \<^verbatim>\<open>cv2.imencode(".jpg", frame)\<close> is a parameter: it returns
  the compressed buffer or raises \<^verbatim>\<open>cv2.error\<close>. A cell either runs to its last line
  or is left by an exception, with the variables as they are at that moment.
\<close>

record 'f cell =
  video :: "'f capture"
  base64Frames :: "string list"
  frame_count :: int

datatype 's outcome = Finished 's | Raised py_error 's

function sample_loop ::
  "('f \<Rightarrow> py_error + byte list) \<Rightarrow> int \<Rightarrow> 'f cell \<Rightarrow> 'f cell outcome" where
  "sample_loop imencode k s =
     (if isOpened (video s) then
        (case read (video s) of
           (None, v) \<Rightarrow> Finished (s\<lparr>video := v\<rparr>)
         | (Some frame, v) \<Rightarrow>
             (if k = 0 then Raised ZeroDivisionError (s\<lparr>video := v\<rparr>)
              else if frame_count s mod k = 0 then
                (case imencode frame of
                   Inl e \<Rightarrow> Raised e (s\<lparr>video := v\<rparr>)
                 | Inr buffer \<Rightarrow>
                     sample_loop imencode k
                       (s\<lparr>video := v,
                          base64Frames := base64Frames s @ [b64encode buffer],
                          frame_count := frame_count s + 1\<rparr>))
              else sample_loop imencode k (s\<lparr>video := v, frame_count := frame_count s + 1\<rparr>)))
      else Finished s)"
  by pat_completeness auto
termination
  by (relation "measure (\<lambda>(imencode, k, s). length (stream (video s)))")
     (auto simp: read_def split: if_splits list.splits)

declare sample_loop.simps [simp del]

fun final_state :: "'s outcome \<Rightarrow> 's" where
  "final_state (Finished s) = s"
| "final_state (Raised e s) = s"

text \<open>
  The whole cell: the stride, the loop, then \<^verbatim>\<open>video.release()\<close>. Nothing catches an
  exception, so the statements after the raising one are not run. When the stride
  computation raises, \<^verbatim>\<open>base64Frames\<close> and \<^verbatim>\<open>frame_count\<close> are not assigned yet; the
  outcome carries their initial values.
\<close>

definition extract_frames ::
  "('f \<Rightarrow> py_error + byte list) \<Rightarrow> (rat \<Rightarrow> rat \<Rightarrow> pyfloat) \<Rightarrow> pyfloat \<Rightarrow> 'f capture
     \<Rightarrow> 'f cell outcome" where
  "extract_frames imencode round_quot target_fps video0 =
     (let s0 = \<lparr>video = video0, base64Frames = [], frame_count = 0\<rparr> in
      case frame_skip round_quot (get_fps video0) target_fps of
        Inl e \<Rightarrow> Raised e s0
      | Inr k \<Rightarrow>
          (case sample_loop imencode k s0 of
             Raised e s \<Rightarrow> Raised e s
           | Finished s \<Rightarrow> Finished (s\<lparr>video := release (video s)\<rparr>)))"

section \<open>Request construction\<close>

text \<open>The Python values the request is made of: strings, sets of strings, lists, dicts.\<close>

datatype pyval =
    PStr string
  | PSet "string set"
  | PList "pyval list"
  | PDict "(string \<times> pyval) list"

definition data_uri :: "string \<Rightarrow> string" where
  "data_uri frame = ''data:image/jpeg;base64,'' @ frame"

definition text_part :: pyval where
  "text_part =
     PDict [(''type'', PStr ''text''),
            (''text'', PStr ''These are frames from a video. Please describe what happens in the video.'')]"

text \<open>The source writes \<^verbatim>\<open>"detail": {detail}\<close>, a set display with one element.\<close>

definition image_part :: "string \<Rightarrow> string \<Rightarrow> pyval" where
  "image_part detail frame =
     PDict [(''type'', PStr ''image_url''),
            (''image_url'', PDict [(''url'', PStr (data_uri frame)),
                                    (''detail'', PSet {detail})])]"

definition messages :: "string \<Rightarrow> string list \<Rightarrow> pyval" where
  "messages detail frames =
     PList [PDict [(''role'', PStr ''user''),
                   (''content'', PList (text_part # map (image_part detail) frames))]]"

text \<open>Reading a request: \<^verbatim>\<open>d[key]\<close>, \<^verbatim>\<open>messages[0]["content"]\<close> and the fields of a part.\<close>

fun dict_get :: "string \<Rightarrow> pyval \<Rightarrow> pyval option" where
  "dict_get key (PDict kvs) = map_of kvs key"
| "dict_get key _ = None"

fun request_content :: "pyval \<Rightarrow> pyval list" where
  "request_content (PList (m # ms)) =
     (case dict_get ''content'' m of Some (PList parts) \<Rightarrow> parts | _ \<Rightarrow> [])"
| "request_content _ = []"

definition part_type :: "pyval \<Rightarrow> pyval option" where
  "part_type p = dict_get ''type'' p"

definition is_image :: "pyval \<Rightarrow> bool" where
  "is_image p = (part_type p = Some (PStr ''image_url''))"

definition image_url :: "pyval \<Rightarrow> pyval option" where
  "image_url p = (case dict_get ''image_url'' p of Some d \<Rightarrow> dict_get ''url'' d | None \<Rightarrow> None)"

definition image_detail :: "pyval \<Rightarrow> pyval option" where
  "image_detail p = (case dict_get ''image_url'' p of Some d \<Rightarrow> dict_get ''detail'' d | None \<Rightarrow> None)"

section \<open>Cost report\<close>

text \<open>
  Token counts are Python integers; \<^verbatim>\<open>/\<close> is true division, here on exact rationals.
  Dividing by \<^verbatim>\<open>len(base64Frames)\<close> raises when the list is empty.
\<close>

definition input_cost :: "int \<Rightarrow> rat" where
  "input_cost input_tokens = of_int input_tokens / 1000000 * 2"

definition output_cost :: "int \<Rightarrow> rat" where
  "output_cost output_tokens = of_int output_tokens / 1000000 * 8"

definition total_cost :: "int \<Rightarrow> int \<Rightarrow> rat" where
  "total_cost input_tokens output_tokens = input_cost input_tokens + output_cost output_tokens"

definition cost_per_frame :: "int \<Rightarrow> int \<Rightarrow> 'a list \<Rightarrow> py_error + rat" where
  "cost_per_frame input_tokens output_tokens frames =
     (if length frames = 0 then Inl ZeroDivisionError
      else Inr (total_cost input_tokens output_tokens / of_nat (length frames)))"

section \<open>Properties of the stride\<close>

lemma frame_skip_finite:
  "t \<noteq> 0 \<Longrightarrow> \<bar>\<lfloor>n / t\<rfloor>\<bar> < exact_range \<Longrightarrow>
   frame_skip round_quot (Finite n) (Finite t) = Inr (max 1 \<lfloor>n / t\<rfloor>)"
  by (simp add: frame_skip_def Let_def)

lemma py_int_no_division_error: "py_int x \<noteq> Inl ZeroDivisionError"
  by (cases x) simp_all

lemma frame_skip_ge1: "frame_skip round_quot fps target_fps = Inr k \<Longrightarrow> 1 \<le> k"
  by (auto simp: frame_skip_def split: sum.splits)

lemma frame_skip_division_error:
  "(frame_skip round_quot fps target_fps = Inl ZeroDivisionError) = (target_fps = Finite 0)"
proof (cases "float_floordiv round_quot fps target_fps")
  case (Inl e)
  then show ?thesis
    by (cases fps; cases target_fps) (auto simp: frame_skip_def Let_def split: if_splits)
next
  case (Inr q)
  then have "target_fps \<noteq> Finite 0"
    by (cases fps; cases target_fps) (auto split: if_splits)
  with Inr py_int_no_division_error [of q] show ?thesis
    by (auto simp: frame_skip_def split: sum.splits)
qed

section \<open>Properties of Base64\<close>

lemma index_of_nth: "distinct xs \<Longrightarrow> i < length xs \<Longrightarrow> index_of (xs ! i) xs = Some i"
proof (induction xs arbitrary: i)
  case Nil
  then show ?case by simp
next
  case (Cons y ys)
  show ?case
  proof (cases i)
    case 0
    then show ?thesis by simp
  next
    case (Suc j)
    with Cons.prems have "j < length ys" and "ys ! j \<noteq> y" and "distinct ys"
      by (auto simp: nth_mem)
    with Cons.IH [of j] Suc show ?thesis by simp
  qed
qed

lemma distinct_b64_alphabet: "distinct b64_alphabet"
  by (simp add: b64_alphabet_def)

lemma length_b64_alphabet: "length b64_alphabet = 64"
  by (simp add: b64_alphabet_def)

lemma pad_notin_alphabet: "CHR ''='' \<notin> set b64_alphabet"
  by (simp add: b64_alphabet_def)

lemma sextet_bound: "s AND 63 = s \<Longrightarrow> unat s < 64" for s :: byte
proof -
  assume a: "s AND 63 = s"
  have "unat (s AND 63) \<le> unat (63 :: byte)"
    by (rule word_and_le1 [THEN word_le_nat_alt [THEN iffD1]])
  with a show ?thesis by simp
qed

lemma b64_value_char: "s AND 63 = s \<Longrightarrow> b64_value (b64_char s) = Some s" for s :: byte
  by (simp add: b64_value_def b64_char_def index_of_nth distinct_b64_alphabet
      length_b64_alphabet sextet_bound)

lemma b64_char_not_pad: "s AND 63 = s \<Longrightarrow> b64_char s \<noteq> CHR ''=''" for s :: byte
proof -
  assume "s AND 63 = s"
  then have "unat s < length b64_alphabet"
    by (simp add: length_b64_alphabet sextet_bound)
  then have "b64_alphabet ! unat s \<in> set b64_alphabet"
    by (rule nth_mem)
  with pad_notin_alphabet show ?thesis
    by (auto simp: b64_char_def)
qed

lemma six_bits: "(63 :: byte) = mask 6"
  by (simp add: mask_eq_exp_minus_1)

lemma two_bits: "(3 :: byte) = mask 2"
  by (simp add: mask_eq_exp_minus_1)

lemma four_bits: "(15 :: byte) = mask 4"
  by (simp add: mask_eq_exp_minus_1)

lemma sextet1_fits: "drop_bit 2 a AND 63 = drop_bit 2 a" for a :: byte
  unfolding six_bits two_bits four_bits
  by (rule bit_word_eqI) (auto simp: bit_simps simp del: add_2_eq_Suc add_2_eq_Suc' dest: bit_imp_le_length)

lemma sextet2_fits: "(push_bit 4 (a AND 3) OR drop_bit 4 b) AND 63 = push_bit 4 (a AND 3) OR drop_bit 4 b" for a :: byte
  unfolding six_bits two_bits four_bits
  by (rule bit_word_eqI) (auto simp: bit_simps simp del: add_2_eq_Suc add_2_eq_Suc' dest: bit_imp_le_length)

lemma sextet3_fits: "(push_bit 2 (b AND 15) OR drop_bit 6 c) AND 63 = push_bit 2 (b AND 15) OR drop_bit 6 c" for b :: byte
  unfolding six_bits two_bits four_bits
  by (rule bit_word_eqI) (auto simp: bit_simps simp del: add_2_eq_Suc add_2_eq_Suc' dest: bit_imp_le_length)

lemma sextet2_last_fits: "push_bit 4 (a AND 3) AND 63 = push_bit 4 (a AND 3)" for a :: byte
  unfolding six_bits two_bits four_bits
  by (rule bit_word_eqI) (auto simp: bit_simps simp del: add_2_eq_Suc add_2_eq_Suc' dest: bit_imp_le_length)

lemma sextet3_last_fits: "push_bit 2 (b AND 15) AND 63 = push_bit 2 (b AND 15)" for b :: byte
  unfolding six_bits two_bits four_bits
  by (rule bit_word_eqI) (auto simp: bit_simps simp del: add_2_eq_Suc add_2_eq_Suc' dest: bit_imp_le_length)

lemma bit_below_shift: "\<not> bit a (k + (n - k)) \<Longrightarrow> bit a n \<Longrightarrow> n < k" for a :: byte
  by (cases "k \<le> n") auto

lemma byte1_restored: "push_bit 2 (drop_bit 2 a) OR drop_bit 4 (push_bit 4 (a AND 3) OR drop_bit 4 b) = a" for a :: byte
  unfolding six_bits two_bits four_bits
  by (rule bit_word_eqI) (auto simp: bit_simps simp del: add_2_eq_Suc add_2_eq_Suc' dest: bit_imp_le_length bit_below_shift)

lemma byte1_restored_last: "push_bit 2 (drop_bit 2 a) OR drop_bit 4 (push_bit 4 (a AND 3)) = a" for a :: byte
  unfolding six_bits two_bits four_bits
  by (rule bit_word_eqI) (auto simp: bit_simps simp del: add_2_eq_Suc add_2_eq_Suc' dest: bit_imp_le_length bit_below_shift)

lemma byte2_restored: "push_bit 4 (push_bit 4 (a AND 3) OR drop_bit 4 b) OR drop_bit 2 (push_bit 2 (b AND 15) OR drop_bit 6 c) = b" for a :: byte
  unfolding six_bits two_bits four_bits
  by (rule bit_word_eqI) (auto simp: bit_simps simp del: add_2_eq_Suc add_2_eq_Suc' dest: bit_imp_le_length bit_below_shift)

lemma byte2_restored_last: "push_bit 4 (push_bit 4 (a AND 3) OR drop_bit 4 b) OR drop_bit 2 (push_bit 2 (b AND 15)) = b" for a :: byte
  unfolding six_bits two_bits four_bits
  by (rule bit_word_eqI) (auto simp: bit_simps simp del: add_2_eq_Suc add_2_eq_Suc' dest: bit_imp_le_length bit_below_shift)

lemma byte3_restored: "push_bit 6 (push_bit 2 (b AND 15) OR drop_bit 6 c) OR (c AND 63) = c" for b :: byte
  unfolding six_bits two_bits four_bits
  by (rule bit_word_eqI) (auto simp: bit_simps simp del: add_2_eq_Suc add_2_eq_Suc' dest: bit_imp_le_length bit_below_shift)



lemmas b64_group_simps =
  b64encode.simps b64decode.simps append.simps prod.case option.case option.map
  if_True if_False simp_thms

lemma b64decode_b64encode: "b64decode (b64encode bs) = Some bs"
proof (induction bs rule: b64encode.induct)
  case 1
  show ?case by simp
next
  case (2 a)
  note v = b64_value_char [OF sextet1_fits [of a]] b64_value_char [OF sextet2_last_fits [of a]]
  show ?case
    by (simp only: b64_group_simps v byte1_restored_last)
next
  case (3 a b)
  note v = b64_value_char [OF sextet1_fits [of a]] b64_value_char [OF sextet2_fits [of a b]]
    b64_value_char [OF sextet3_last_fits [of b]] b64_char_not_pad [OF sextet3_last_fits [of b]]
  show ?case
    by (simp only: b64_group_simps v byte1_restored byte2_restored_last)
next
  case (4 a b c rest)
  have sextet4_fits: "(c AND 63) AND 63 = c AND 63"
    by (simp add: and.assoc)
  note v = b64_value_char [OF sextet1_fits [of a]] b64_value_char [OF sextet2_fits [of a b]]
    b64_value_char [OF sextet3_fits [of b c]] b64_value_char [OF sextet4_fits]
    b64_char_not_pad [OF sextet3_fits [of b c]] b64_char_not_pad [OF sextet4_fits]
  show ?case
    by (simp only: b64_group_simps v byte1_restored byte2_restored byte3_restored "4.IH")
qed

section \<open>Properties of the sampling loop\<close>


lemma sample_loop_closed: "\<not> opened (video s) \<Longrightarrow> sample_loop imencode k s = Finished s"
  by (subst sample_loop.simps) (simp add: isOpened_def)

lemma sample_loop_end:
  "opened (video s) \<Longrightarrow> stream (video s) = [] \<Longrightarrow> sample_loop imencode k s = Finished s"
  by (subst sample_loop.simps) (simp add: isOpened_def read_def)

lemma sample_loop_step:
  assumes "opened (video s)" and "stream (video s) = frame # rest" and "k \<noteq> 0"
  shows "sample_loop imencode k s =
     (if frame_count s mod k = 0 then
        (case imencode frame of
           Inl e \<Rightarrow> Raised e (s\<lparr>video := (video s)\<lparr>stream := rest\<rparr>\<rparr>)
         | Inr buffer \<Rightarrow>
             sample_loop imencode k
               (s\<lparr>video := (video s)\<lparr>stream := rest\<rparr>,
                  base64Frames := base64Frames s @ [b64encode buffer],
                  frame_count := frame_count s + 1\<rparr>))
      else sample_loop imencode k
             (s\<lparr>video := (video s)\<lparr>stream := rest\<rparr>, frame_count := frame_count s + 1\<rparr>))"
  using assms by (subst sample_loop.simps) (simp add: isOpened_def read_def)


lemma sample_loop_finished:
  assumes "sample_loop imencode k s = Finished s'" and "opened (video s)" and "0 < k"
  shows "video s' = (video s)\<lparr>stream := []\<rparr>
       \<and> frame_count s' = frame_count s + int (length (stream (video s)))
       \<and> base64Frames s' = base64Frames s @
            map (\<lambda>i. b64encode (projr (imencode (stream (video s) ! i))))
              (filter (\<lambda>i. (frame_count s + int i) mod k = 0) [0..<length (stream (video s))])"
  using assms
proof (induction "stream (video s)" arbitrary: s)
  case Nil
  from Nil.prems(1) sample_loop_end [OF Nil.prems(2) Nil.hyps [symmetric], of imencode k]
  have "s' = s" by simp
  with Nil.hyps show ?case by simp
next
  case (Cons frame rest)
  have str: "stream (video s) = frame # rest"
    using Cons.hyps(2) by simp
  have k0: "k \<noteq> 0"
    using Cons.prems(3) by simp
  note step = sample_loop_step [OF Cons.prems(2) str k0, of imencode]
  have upt: "[0..<Suc (length rest)] = 0 # map Suc [0..<length rest]"
    by (simp add: upt_conv_Cons map_Suc_upt del: upt_Suc)
  show ?case
  proof (cases "frame_count s mod k = 0")
    case True
    show ?thesis
    proof (cases "imencode frame")
      case (Inl e)
      with step True Cons.prems(1) show ?thesis by simp
    next
      case (Inr buffer)
      let ?s1 = "s\<lparr>video := (video s)\<lparr>stream := rest\<rparr>,
                  base64Frames := base64Frames s @ [b64encode buffer],
                  frame_count := frame_count s + 1\<rparr>"
      have run: "sample_loop imencode k ?s1 = Finished s'"
        using step True Inr Cons.prems(1) by simp
      have "rest = stream (video ?s1)" and "opened (video ?s1)"
        using Cons.prems(2) by simp_all
      from Cons.hyps(1) [OF this(1) run this(2) Cons.prems(3)]
      show ?thesis
        using True Inr
        by (simp add: str upt filter_map comp_def add.assoc del: upt_Suc)
    qed
  next
    case False
    let ?s1 = "s\<lparr>video := (video s)\<lparr>stream := rest\<rparr>, frame_count := frame_count s + 1\<rparr>"
    have run: "sample_loop imencode k ?s1 = Finished s'"
      using step False Cons.prems(1) by simp
    have "rest = stream (video ?s1)" and "opened (video ?s1)"
      using Cons.prems(2) by simp_all
    from Cons.hyps(1) [OF this(1) run this(2) Cons.prems(3)]
    show ?thesis
      using False
      by (simp add: str upt filter_map comp_def add.assoc del: upt_Suc)
  qed
qed


lemma sample_loop_finishes:
  assumes "opened (video s)" and "0 < k"
    and "\<forall>f \<in> set (stream (video s)). \<exists>buffer. imencode f = Inr buffer"
  shows "\<exists>s'. sample_loop imencode k s = Finished s'"
  using assms
proof (induction "stream (video s)" arbitrary: s)
  case Nil
  then show ?case
    using sample_loop_end [of s imencode k] by simp
next
  case (Cons frame rest)
  have str: "stream (video s) = frame # rest"
    using Cons.hyps(2) by simp
  have k0: "k \<noteq> 0"
    using Cons.prems(2) by simp
  note step = sample_loop_step [OF Cons.prems(1) str k0, of imencode]
  obtain buffer where enc: "imencode frame = Inr buffer"
    using Cons.prems(3) str by auto
  have rest_ok: "\<forall>f \<in> set rest. \<exists>buffer. imencode f = Inr buffer"
    using Cons.prems(3) str by simp
  show ?case
  proof (cases "frame_count s mod k = 0")
    case True
    let ?s1 = "s\<lparr>video := (video s)\<lparr>stream := rest\<rparr>,
                base64Frames := base64Frames s @ [b64encode buffer],
                frame_count := frame_count s + 1\<rparr>"
    have "\<exists>s'. sample_loop imencode k ?s1 = Finished s'"
      using Cons.prems(1,2) rest_ok by (intro Cons.hyps(1)) simp_all
    with step True enc show ?thesis by simp
  next
    case False
    let ?s1 = "s\<lparr>video := (video s)\<lparr>stream := rest\<rparr>, frame_count := frame_count s + 1\<rparr>"
    have "\<exists>s'. sample_loop imencode k ?s1 = Finished s'"
      using Cons.prems(1,2) rest_ok by (intro Cons.hyps(1)) simp_all
    with step False show ?thesis by simp
  qed
qed

lemma sample_loop_collected:
  assumes "opened (video s)" and "0 < k"
  shows "\<exists>c. base64Frames (final_state (sample_loop imencode k s)) = base64Frames s @
            map (\<lambda>i. b64encode (projr (imencode (stream (video s) ! i))))
              (take c (filter (\<lambda>i. (frame_count s + int i) mod k = 0)
                         [0..<length (stream (video s))]))"
  using assms
proof (induction "stream (video s)" arbitrary: s)
  case Nil
  have "sample_loop imencode k s = Finished s"
    using Nil.prems(1) Nil.hyps by (intro sample_loop_end) simp_all
  then show ?case by simp
next
  case (Cons frame rest)
  have str: "stream (video s) = frame # rest"
    using Cons.hyps(2) by simp
  have k0: "k \<noteq> 0"
    using Cons.prems(2) by simp
  note step = sample_loop_step [OF Cons.prems(1) str k0, of imencode]
  have upt: "[0..<Suc (length rest)] = 0 # map Suc [0..<length rest]"
    by (simp add: upt_conv_Cons map_Suc_upt del: upt_Suc)
  show ?case
  proof (cases "frame_count s mod k = 0")
    case True
    show ?thesis
    proof (cases "imencode frame")
      case (Inl e)
      with step True have "base64Frames (final_state (sample_loop imencode k s)) = base64Frames s"
        by simp
      then show ?thesis
        by (intro exI [of _ 0]) simp
    next
      case (Inr buffer)
      let ?s1 = "s\<lparr>video := (video s)\<lparr>stream := rest\<rparr>,
                  base64Frames := base64Frames s @ [b64encode buffer],
                  frame_count := frame_count s + 1\<rparr>"
      have run: "sample_loop imencode k s = sample_loop imencode k ?s1"
        using step True Inr by simp
      have "rest = stream (video ?s1)" and "opened (video ?s1)"
        using Cons.prems(1) by simp_all
      from Cons.hyps(1) [OF this Cons.prems(2)]
      obtain c where "base64Frames (final_state (sample_loop imencode k ?s1)) =
          base64Frames ?s1 @ map (\<lambda>i. b64encode (projr (imencode (stream (video ?s1) ! i))))
            (take c (filter (\<lambda>i. (frame_count ?s1 + int i) mod k = 0)
                       [0..<length (stream (video ?s1))]))" ..
      then show ?thesis
        using True Inr
        by (intro exI [of _ "Suc c"])
          (simp add: run str upt filter_map comp_def add.assoc take_map del: upt_Suc)
    qed
  next
    case False
    let ?s1 = "s\<lparr>video := (video s)\<lparr>stream := rest\<rparr>, frame_count := frame_count s + 1\<rparr>"
    have run: "sample_loop imencode k s = sample_loop imencode k ?s1"
      using step False by simp
    have "rest = stream (video ?s1)" and "opened (video ?s1)"
      using Cons.prems(1) by simp_all
    from Cons.hyps(1) [OF this Cons.prems(2)]
    obtain c where "base64Frames (final_state (sample_loop imencode k ?s1)) =
        base64Frames ?s1 @ map (\<lambda>i. b64encode (projr (imencode (stream (video ?s1) ! i))))
          (take c (filter (\<lambda>i. (frame_count ?s1 + int i) mod k = 0)
                     [0..<length (stream (video ?s1))]))" ..
    then show ?thesis
      using False
      by (intro exI [of _ c])
        (simp add: run str upt filter_map comp_def add.assoc take_map del: upt_Suc)
  qed
qed


lemma sample_loop_keeps_handle:
  "releases (video (final_state (sample_loop imencode k s))) = releases (video s)
   \<and> opened (video (final_state (sample_loop imencode k s))) = opened (video s)"
proof (induction imencode k s rule: sample_loop.induct)
  case (1 imencode k s)
  show ?case
  proof (cases "opened (video s)")
    case False
    then show ?thesis by (simp add: sample_loop_closed)
  next
    case op: True
    show ?thesis
    proof (cases "stream (video s)")
      case Nil
      with op show ?thesis by (simp add: sample_loop_end)
    next
      case (Cons frame rest)
      have rd: "read (video s) = (Some frame, (video s)\<lparr>stream := rest\<rparr>)"
        using op Cons by (simp add: read_def)
      have io: "isOpened (video s)"
        using op by (simp add: isOpened_def)
      show ?thesis
      proof (cases "k = 0")
        case True
        with op Cons show ?thesis
          by (subst (1 2) sample_loop.simps) (simp add: isOpened_def read_def)
      next
        case k0: False
        note step = sample_loop_step [OF op Cons k0, of imencode]
        show ?thesis
        proof (cases "frame_count s mod k = 0")
          case True
          show ?thesis
          proof (cases "imencode frame")
            case (Inl e)
            with step True show ?thesis by simp
          next
            case (Inr buffer)
            from "1.IH"(1) [OF io rd [symmetric] refl k0 True Inr]
            show ?thesis using step True Inr by simp
          qed
        next
          case False
          from "1.IH"(2) [OF io rd [symmetric] refl k0 False]
          show ?thesis using step False by simp
        qed
      qed
    qed
  qed
qed


subsection \<open>Every k-th position\<close>

lemma ceil_div_nat:
  fixes m K :: nat
  assumes K: "0 < K"
  shows "(m + K - 1) div K = (if m mod K = 0 then m div K else Suc (m div K))"
proof -
  define q r where "q = m div K" and "r = m mod K"
  have m: "m = q * K + r"
    by (simp add: q_def r_def)
  have r: "r < K"
    using K by (simp add: r_def)
  show ?thesis
  proof (cases "r = 0")
    case True
    have "m + K - 1 = q * K + (K - 1)"
      using m True K by linarith
    moreover have "(q * K + (K - 1)) div K = q + (K - 1) div K"
      using K by (intro div_mult_self3) simp
    moreover have "(K - 1) div K = 0"
      using K by (intro div_less) simp
    ultimately have "(m + K - 1) div K = q"
      by (simp only: add_0_right)
    with True show ?thesis
      by (simp only: q_def r_def if_True simp_thms)
  next
    case False
    have "m + K - 1 = Suc q * K + (r - 1)"
      using m False by (simp only: mult_Suc)
    moreover have "(Suc q * K + (r - 1)) div K = Suc q + (r - 1) div K"
      using K by (intro div_mult_self3) simp
    moreover have "(r - 1) div K = 0"
      using r by (intro div_less) simp
    ultimately have "(m + K - 1) div K = Suc q"
      by (simp only: add_0_right)
    with False show ?thesis
      by (simp only: q_def r_def if_False simp_thms)
  qed
qed


lemma ceil_div_rat:
  fixes m K :: nat
  assumes K: "0 < K"
  shows "int ((m + K - 1) div K) = \<lceil>rat_of_nat m / rat_of_nat K\<rceil>"
proof -
  have K0: "int K \<noteq> 0"
    using K by simp
  have "\<lceil>rat_of_nat m / rat_of_nat K\<rceil> = \<lceil>rat_of_int (int m) / rat_of_int (int K)\<rceil>"
    by simp
  also have "\<dots> = - (- int m div int K)"
    by (rule ceiling_divide_eq_div)
  also have "\<dots> = (if int m mod int K = 0 then int m div int K else int m div int K + 1)"
    by (simp only: zdiv_zminus1_eq_if [OF K0]) simp
  also have "\<dots> = int (if m mod K = 0 then m div K else Suc (m div K))"
    by (simp only: of_nat_div [symmetric] of_nat_mod [symmetric] of_nat_eq_0_iff) simp
  finally show ?thesis
    by (simp only: ceil_div_nat [OF K])
qed


lemma filter_mod_upt:
  fixes m K :: nat
  assumes K: "0 < K"
  shows "filter (\<lambda>i. i mod K = 0) [0..<m] = map (\<lambda>j. j * K) [0..<(m + K - 1) div K]"
proof (induction m)
  case 0
  have "(0 + K - 1) div K = 0"
    using K by (simp only: ceil_div_nat [OF K]) simp
  then show ?case by simp
next
  case (Suc m)
  have next_up: "(Suc m + K - 1) div K = Suc (m div K)"
    using K by simp
  show ?case
  proof (cases "m mod K = 0")
    case True
    have up: "(m + K - 1) div K = m div K"
      using True by (simp only: ceil_div_nat [OF K] if_True simp_thms)
    have "m div K * K = m"
      using True by (simp add: mod_eq_0_iff_dvd)
    with Suc.IH True show ?thesis
      unfolding next_up up by simp
  next
    case False
    have up: "(m + K - 1) div K = Suc (m div K)"
      using False by (simp only: ceil_div_nat [OF K] if_False simp_thms)
    with Suc.IH False show ?thesis
      unfolding next_up by simp
  qed
qed

lemma sorted_multiples: "0 < K \<Longrightarrow> sorted_wrt (<) (map (\<lambda>j. j * K) [0..<n])" for K :: nat
  by (simp add: sorted_wrt_map sorted_wrt_upt)

subsection \<open>The cell as a whole\<close>

lemma extract_frames_finished:
  assumes "extract_frames imencode round_quot target_fps v = Finished s"
  obtains k s1 where "frame_skip round_quot (get_fps v) target_fps = Inr k"
    and "sample_loop imencode k \<lparr>video = v, base64Frames = [], frame_count = 0\<rparr> = Finished s1"
    and "s = s1\<lparr>video := release (video s1)\<rparr>"
  using assms
  by (auto simp: extract_frames_def Let_def split: sum.splits outcome.splits)

lemma int_mod_nat: "0 < k \<Longrightarrow> (int i mod k = 0) = (i mod nat k = 0)"
proof -
  assume "0 < k"
  then have "int i mod k = int (i mod nat k)"
    by (simp add: of_nat_mod)
  then show ?thesis by simp
qed

lemma sample_loop_from_start:
  assumes run: "sample_loop imencode k \<lparr>video = v, base64Frames = [], frame_count = 0\<rparr> = Finished s1"
    and op: "opened v" and k: "0 < k"
  shows "base64Frames s1 =
           map (\<lambda>j. b64encode (projr (imencode (stream v ! (j * nat k)))))
             [0..<(length (stream v) + nat k - 1) div nat k]"
    and "frame_count s1 = int (length (stream v))"
    and "video s1 = v\<lparr>stream := []\<rparr>"
proof -
  from k have K: "0 < nat k" by simp
  from sample_loop_finished [OF run _ k] op
  have fin: "video s1 = v\<lparr>stream := []\<rparr>" "frame_count s1 = int (length (stream v))"
    "base64Frames s1 = map (\<lambda>i. b64encode (projr (imencode (stream v ! i))))
        (filter (\<lambda>i. int i mod k = 0) [0..<length (stream v)])"
    by simp_all
  show "frame_count s1 = int (length (stream v))" and "video s1 = v\<lparr>stream := []\<rparr>"
    by (fact fin)+
  show "base64Frames s1 =
           map (\<lambda>j. b64encode (projr (imencode (stream v ! (j * nat k)))))
             [0..<(length (stream v) + nat k - 1) div nat k]"
    unfolding fin(3) int_mod_nat [OF k] filter_mod_upt [OF K]
    by (simp add: comp_def)
qed

lemma set_multiples:
  fixes K :: nat
  assumes K: "0 < K"
  shows "set (map (\<lambda>j. j * K) [0..<(m + K - 1) div K]) = {i. i < m \<and> i mod K = 0}"
  unfolding filter_mod_upt [OF K, symmetric] by auto


lemma extract_frames_run:
  assumes skip: "frame_skip round_quot (get_fps v) target_fps = Inr k"
    and op: "opened v"
    and enc: "\<forall>f \<in> set (stream v). \<exists>buffer. imencode f = Inr buffer"
  obtains s1 where
    "sample_loop imencode k \<lparr>video = v, base64Frames = [], frame_count = 0\<rparr> = Finished s1"
    and "extract_frames imencode round_quot target_fps v
           = Finished (s1\<lparr>video := release (video s1)\<rparr>)"
proof -
  let ?s0 = "\<lparr>video = v, base64Frames = [], frame_count = 0\<rparr>"
  have k: "0 < k"
    using frame_skip_ge1 [OF skip] by simp
  have "\<exists>s1. sample_loop imencode k ?s0 = Finished s1"
    using op enc k by (intro sample_loop_finishes) simp_all
  then obtain s1 where run: "sample_loop imencode k ?s0 = Finished s1" ..
  have "extract_frames imencode round_quot target_fps v
          = Finished (s1\<lparr>video := release (video s1)\<rparr>)"
    using skip run by (simp add: extract_frames_def)
  with run show thesis by (rule that)
qed

lemma extract_frames_frames:
  "base64Frames (final_state (extract_frames imencode round_quot target_fps v)) =
     (case frame_skip round_quot (get_fps v) target_fps of
        Inl e \<Rightarrow> []
      | Inr k \<Rightarrow> base64Frames (final_state
                   (sample_loop imencode k \<lparr>video = v, base64Frames = [], frame_count = 0\<rparr>)))"
  by (simp add: extract_frames_def Let_def split: sum.splits outcome.splits)

lemma collected_from_start:
  fixes imencode :: "'f \<Rightarrow> py_error + byte list" and v :: "'f capture" and k :: int
  assumes op: "opened v" and k: "0 < k"
  defines "frames \<equiv> base64Frames (final_state
             (sample_loop imencode k \<lparr>video = v, base64Frames = [], frame_count = 0\<rparr>))"
  shows "frames = map (\<lambda>j. b64encode (projr (imencode (stream v ! (j * nat k)))))
                    [0..<length frames]"
    and "length frames \<le> (length (stream v) + nat k - 1) div nat k"
proof -
  from k have K: "0 < nat k" by simp
  let ?C = "(length (stream v) + nat k - 1) div nat k"
  let ?enc = "\<lambda>i. b64encode (projr (imencode (stream v ! i)))"
  from sample_loop_collected [of "\<lparr>video = v, base64Frames = [], frame_count = 0\<rparr>" k imencode]
    op k
  obtain c where "frames = map ?enc (take c (filter (\<lambda>i. int i mod k = 0) [0..<length (stream v)]))"
    unfolding frames_def by auto
  then have "frames = map ?enc (take c (map (\<lambda>j. j * nat k) [0..<?C]))"
    unfolding int_mod_nat [OF k] filter_mod_upt [OF K] .
  then have fr: "frames = map (\<lambda>j. ?enc (j * nat k)) [0..<min c ?C]"
    by (simp add: take_map comp_def take_upt min_def)
  then have len: "length frames = min c ?C"
    by simp
  show "frames = map (\<lambda>j. ?enc (j * nat k)) [0..<length frames]"
    using fr unfolding len .
  show "length frames \<le> ?C"
    using len by simp
qed

section \<open>Properties of the request\<close>

lemma request_content_messages:
  "request_content (messages detail frames) = text_part # map (image_part detail) frames"
  by (simp add: messages_def)

lemma is_image_text_part: "\<not> is_image text_part"
  by (simp add: is_image_def part_type_def text_part_def)

lemma is_image_image_part: "is_image (image_part detail frame)"
  by (simp add: is_image_def part_type_def image_part_def)

lemma image_url_image_part: "image_url (image_part detail frame) = Some (PStr (data_uri frame))"
  by (simp add: image_url_def image_part_def)

lemma image_detail_image_part: "image_detail (image_part detail frame) = Some (PSet {detail})"
  by (simp add: image_detail_def image_part_def)

lemma images_of_request:
  "filter is_image (request_content (messages detail frames)) = map (image_part detail) frames"
  by (simp add: request_content_messages is_image_text_part is_image_image_part)

section \<open>The claims\<close>

text \<open>
  C1, as amended. For every finite native rate \<open>n\<close> and every finite target rate \<open>t > 0\<close>
  whose quotient has a floor below \<open>2 ^ 51\<close> in size, the stride is \<open>max 1 \<lfloor>n / t\<rfloor>\<close>; it is
  at least 1, and it is exactly 1 when the target rate is above the native rate. Whatever
  the rates, a stride that the computation returns is at least 1. Beyond that range the
  quotient is a rounded double, and where it overflows the computation raises
  \<^verbatim>\<open>OverflowError\<close> and there is no stride: with a rate of 30 and the smallest positive
  double as target rate, \<^verbatim>\<open>30.0 // 5e-324\<close> is infinite.
\<close>

theorem stride_formula:
  assumes "0 < t" and "\<bar>\<lfloor>n / t\<rfloor>\<bar> < 2 ^ 51"
  shows "frame_skip round_quot (Finite n) (Finite t) = Inr (max 1 \<lfloor>n / t\<rfloor>)
       \<and> 1 \<le> max 1 \<lfloor>n / t\<rfloor>
       \<and> (n < t \<longrightarrow> frame_skip round_quot (Finite n) (Finite t) = Inr 1)
       \<and> (\<forall>fps target_fps k. frame_skip round_quot fps target_fps = Inr k \<longrightarrow> 1 \<le> k)"
proof -
  have eq: "frame_skip round_quot (Finite n) (Finite t) = Inr (max 1 \<lfloor>n / t\<rfloor>)"
    using assms by (simp add: frame_skip_finite exact_range_def)
  have small: "max 1 \<lfloor>n / t\<rfloor> = 1" if "n < t"
  proof -
    from that assms(1) have "n / t < 1" by simp
    then have "\<lfloor>n / t\<rfloor> < 1" by (simp add: floor_less_iff)
    then have "\<lfloor>n / t\<rfloor> \<le> 1" by simp
    then show ?thesis by (rule max_absorb1)
  qed
  show ?thesis
  proof (intro conjI impI allI)
    show "frame_skip round_quot (Finite n) (Finite t) = Inr (max 1 \<lfloor>n / t\<rfloor>)"
      by (fact eq)
    show "1 \<le> max 1 \<lfloor>n / t\<rfloor>"
      by (rule max.cobounded1)
    show "frame_skip round_quot (Finite n) (Finite t) = Inr 1" if "n < t"
      using eq small [OF that] by (simp only:)
    show "1 \<le> k" if "frame_skip round_quot fps target_fps = Inr k" for fps target_fps k
      using that by (rule frame_skip_ge1)
  qed
qed

theorem stride_formula_witness:
  "(0 :: rat) < 30 \<and> \<bar>\<lfloor>(10 :: rat) / 30\<rfloor>\<bar> < 2 ^ 51 \<and> (10 :: rat) < 30
   \<and> frame_skip (\<lambda>a w. NaN) (Finite 10) (Finite 30) = Inr 1
   \<and> (0 :: rat) < 1 \<and> \<bar>\<lfloor>(2997 / 100 :: rat) / 1\<rfloor>\<bar> < 2 ^ 51
   \<and> frame_skip (\<lambda>a w. NaN) (Finite (2997 / 100)) (Finite 1) = Inr 29
   \<and> (1 :: int) \<le> 29"
proof -
  have f1: "\<lfloor>(10 :: rat) / 30\<rfloor> = 0" and f2: "\<lfloor>(2997 / 100 :: rat)\<rfloor> = 29"
    by (simp_all add: floor_eq_iff)
  from stride_formula [of 30 10 "\<lambda>a w. NaN"] stride_formula [of 1 "2997 / 100" "\<lambda>a w. NaN"]
  show ?thesis
    by (simp add: f1 f2)
qed

theorem stride_overflow_counterexample:
  "frame_skip (\<lambda>a w. Finite (of_int \<lfloor>a / w\<rfloor>)) (Finite 30) (Finite (1 / 2 ^ 1074))
     = Inl OverflowError
   \<and> frame_skip (\<lambda>a w. Finite (of_int \<lfloor>a / w\<rfloor>)) (Finite 30) (Finite (1 / 2 ^ 1074))
     \<noteq> Inr (max 1 \<lfloor>(30 :: rat) / (1 / 2 ^ 1074)\<rfloor>)"
  by (simp add: frame_skip_def Let_def exact_range_def overflow_range_def)

text \<open>
  C8, as amended. A native rate of 0 with a target rate \<open>t > 0\<close> raises nothing: the floor
  division gives 0 and the stride is 1. With \<open>t > 0\<close> no reported rate raises a division
  error; a NaN rate raises \<open>ValueError\<close> at the conversion to an integer. The stride
  computation raises \<open>ZeroDivisionError\<close> exactly when the target rate is 0.
\<close>

theorem zero_rate_stride:
  assumes "0 < t"
  shows "frame_skip round_quot (Finite 0) (Finite t) = Inr 1
       \<and> frame_skip round_quot fps (Finite t) \<noteq> Inl ZeroDivisionError
       \<and> frame_skip round_quot NaN (Finite t) = Inl ValueError
       \<and> (frame_skip round_quot fps target_fps = Inl ZeroDivisionError) = (target_fps = Finite 0)"
proof -
  have "t \<noteq> 0" using assms by simp
  then have "frame_skip round_quot (Finite 0) (Finite t) = Inr 1"
    and "frame_skip round_quot NaN (Finite t) = Inl ValueError"
    by (simp_all add: frame_skip_def exact_range_def)
  moreover have "frame_skip round_quot fps (Finite t) \<noteq> Inl ZeroDivisionError"
    using \<open>t \<noteq> 0\<close> by (simp add: frame_skip_division_error)
  ultimately show ?thesis by (simp add: frame_skip_division_error)
qed

theorem zero_rate_stride_witness:
  "(0 :: rat) < 1 \<and> frame_skip (\<lambda>a w. NaN) (Finite 0) (Finite 1) = Inr 1
   \<and> frame_skip (\<lambda>a w. NaN) PosInf (Finite 1) \<noteq> Inl ZeroDivisionError
   \<and> frame_skip (\<lambda>a w. NaN) (Finite 30) (Finite 0) = Inl ZeroDivisionError"
  using zero_rate_stride [of 1 "\<lambda>a w. NaN" PosInf "Finite 0"]
    zero_rate_stride [of 1 "\<lambda>a w. NaN" "Finite 30" "Finite 0"]
  by simp

theorem zero_rate_counterexample:
  "frame_skip (\<lambda>a w. NaN) (Finite 0) (Finite 1) = Inr 1
   \<and> frame_skip (\<lambda>a w. NaN) (Finite 0) (Finite 1) \<noteq> Inl ZeroDivisionError"
  by (simp add: frame_skip_def exact_range_def)

text \<open>
  C2. When the cell has computed the stride \<open>k\<close>, on an open capture whose frames all
  encode, it runs to its end, \<^verbatim>\<open>frame_count\<close> is the number of frames of the stream and
  the number of collected frames is that number divided by \<open>k\<close>, rounded up. The stride
  is \<open>max 1 \<lfloor>n / t\<rfloor>\<close> for finite rates \<open>n\<close> and \<open>t > 0\<close> with a quotient in the exact range.
\<close>

theorem sampled_frame_count:
  assumes "frame_skip round_quot (get_fps v) target_fps = Inr k"
    and "opened v"
    and "\<forall>f \<in> set (stream v). \<exists>buffer. imencode f = Inr buffer"
  shows "(\<exists>s. extract_frames imencode round_quot target_fps v = Finished s
            \<and> int (length (base64Frames s))
                = \<lceil>rat_of_nat (length (stream v)) / rat_of_int k\<rceil>
            \<and> frame_count s = int (length (stream v)))
       \<and> (\<forall>n t. get_fps v = Finite n \<and> target_fps = Finite t \<and> 0 < t
                  \<and> \<bar>\<lfloor>n / t\<rfloor>\<bar> < 2 ^ 51 \<longrightarrow> k = max 1 \<lfloor>n / t\<rfloor>)"
proof
  have k: "0 < k"
    using frame_skip_ge1 [OF assms(1)] by simp
  then have K: "0 < nat k" by simp
  from assms obtain s1 where
    run: "sample_loop imencode k \<lparr>video = v, base64Frames = [], frame_count = 0\<rparr> = Finished s1"
    and cell: "extract_frames imencode round_quot target_fps v
                 = Finished (s1\<lparr>video := release (video s1)\<rparr>)"
    by (rule extract_frames_run)
  note res = sample_loop_from_start [OF run assms(2) k]
  have "int (length (base64Frames s1)) = int ((length (stream v) + nat k - 1) div nat k)"
    by (simp only: res(1) length_map length_upt diff_zero)
  also have "\<dots> = \<lceil>rat_of_nat (length (stream v)) / rat_of_nat (nat k)\<rceil>"
    by (rule ceil_div_rat [OF K])
  also have "rat_of_nat (nat k) = rat_of_int k"
    using k by (simp only: of_nat_nat [OF less_imp_le])
  finally have "int (length (base64Frames s1))
      = \<lceil>rat_of_nat (length (stream v)) / rat_of_int k\<rceil>" .
  with cell res(2)
  show "\<exists>s. extract_frames imencode round_quot target_fps v = Finished s
            \<and> int (length (base64Frames s))
                = \<lceil>rat_of_nat (length (stream v)) / rat_of_int k\<rceil>
            \<and> frame_count s = int (length (stream v))"
    by simp
next
  show "\<forall>n t. get_fps v = Finite n \<and> target_fps = Finite t \<and> 0 < t
                  \<and> \<bar>\<lfloor>n / t\<rfloor>\<bar> < 2 ^ 51 \<longrightarrow> k = max 1 \<lfloor>n / t\<rfloor>"
  proof (intro allI impI)
    fix n t
    assume h: "get_fps v = Finite n \<and> target_fps = Finite t \<and> 0 < t \<and> \<bar>\<lfloor>n / t\<rfloor>\<bar> < 2 ^ 51"
    then have "frame_skip round_quot (get_fps v) target_fps = Inr (max 1 \<lfloor>n / t\<rfloor>)"
      by (simp add: frame_skip_finite exact_range_def)
    with assms(1) show "k = max 1 \<lfloor>n / t\<rfloor>" by simp
  qed
qed

theorem sampled_frame_count_witness:
  "(let v = \<lparr>opened = True, prop_fps = Finite 30, stream = replicate 900 (0 :: nat), releases = 0\<rparr>;
        imencode = (\<lambda>f. Inr [of_nat f]);
        round_quot = (\<lambda>a w. NaN)
    in frame_skip round_quot (get_fps v) (Finite 1) = Inr 30
       \<and> opened v
       \<and> (\<forall>f \<in> set (stream v). \<exists>buffer. imencode f = Inr buffer)
       \<and> (\<exists>s. extract_frames imencode round_quot (Finite 1) v = Finished s
              \<and> length (base64Frames s) = 30 \<and> frame_count s = 900)
       \<and> get_fps v = Finite 30 \<and> (0 :: rat) < 1 \<and> \<bar>\<lfloor>(30 :: rat) / 1\<rfloor>\<bar> < 2 ^ 51
       \<and> (30 :: int) = max 1 \<lfloor>(30 :: rat) / 1\<rfloor>)"
proof -
  have skip: "frame_skip (\<lambda>a w. NaN)
      (get_fps \<lparr>opened = True, prop_fps = Finite 30, stream = replicate 900 (0 :: nat), releases = 0\<rparr>)
      (Finite 1) = Inr 30"
    by (simp add: frame_skip_def get_fps_def exact_range_def)
  from sampled_frame_count [OF skip, of "\<lambda>f. Inr [of_nat f]"] skip
  show ?thesis
    by (simp add: Let_def get_fps_def)
qed

text \<open>
  C3. In every run on an open capture in which the cell has computed the stride \<open>k\<close>,
  whether it reaches its end or is left by an exception, the collected frames are, in this
  order, the encodings of the frames at positions \<open>0\<close>, \<open>k\<close>, \<open>2 * k\<close>, ... of the stream.
  The positions increase strictly, so none occurs twice, and each is a multiple of \<open>k\<close>
  below the length of the stream. When the run reaches its end they are all such
  positions, so none is left out; and it does reach its end when every frame encodes.
\<close>

theorem sampled_positions:
  assumes "frame_skip round_quot (get_fps v) target_fps = Inr k" and "opened v"
  shows "(let out = extract_frames imencode round_quot target_fps v;
              frames = base64Frames (final_state out);
              idx = map (\<lambda>j. j * nat k) [0..<length frames]
          in frames = map (\<lambda>i. b64encode (projr (imencode (stream v ! i)))) idx
             \<and> sorted_wrt (<) idx
             \<and> (\<forall>i \<in> set idx. i < length (stream v) \<and> int i mod k = 0)
             \<and> ((\<exists>s. out = Finished s) \<longrightarrow>
                  set idx = {i. i < length (stream v) \<and> int i mod k = 0})
             \<and> ((\<forall>f \<in> set (stream v). \<exists>buffer. imencode f = Inr buffer) \<longrightarrow>
                  (\<exists>s. out = Finished s)))"
proof -
  let ?s0 = "\<lparr>video = v, base64Frames = [], frame_count = 0\<rparr>"
  let ?out = "extract_frames imencode round_quot target_fps v"
  let ?frames = "base64Frames (final_state ?out)"
  let ?idx = "map (\<lambda>j. j * nat k) [0..<length ?frames]"
  let ?C = "(length (stream v) + nat k - 1) div nat k"
  have k: "0 < k"
    using frame_skip_ge1 [OF assms(1)] by simp
  then have K: "0 < nat k" by simp
  have fr: "?frames = base64Frames (final_state (sample_loop imencode k ?s0))"
    by (simp add: extract_frames_frames assms(1))
  have enc: "?frames = map (\<lambda>i. b64encode (projr (imencode (stream v ! i)))) ?idx"
    unfolding fr using collected_from_start(1) [OF assms(2) k, of imencode]
    by (simp add: comp_def)
  have len: "length ?frames \<le> ?C"
    unfolding fr by (rule collected_from_start(2) [OF assms(2) k])
  have sorted: "sorted_wrt (<) ?idx"
    by (rule sorted_multiples [OF K])
  have below: "\<forall>i \<in> set ?idx. i < length (stream v) \<and> int i mod k = 0"
  proof
    fix i assume "i \<in> set ?idx"
    then obtain j where j: "j < length ?frames" and i: "i = j * nat k" by auto
    from j len have "j < ?C" by simp
    then have "j \<in> set [0..<?C]" by simp
    then have "i \<in> set (map (\<lambda>j. j * nat k) [0..<?C])"
      unfolding i by (rule imageI [of j "set [0..<?C]" "\<lambda>j. j * nat k", folded set_map])
    then have "i < length (stream v) \<and> i mod nat k = 0"
      unfolding set_multiples [OF K] by simp
    then show "i < length (stream v) \<and> int i mod k = 0"
      by (simp add: int_mod_nat [OF k])
  qed
  have full: "set ?idx = {i. i < length (stream v) \<and> int i mod k = 0}" if "?out = Finished s" for s
  proof -
    from that obtain k' s1 where
      "frame_skip round_quot (get_fps v) target_fps = Inr k'"
      and run': "sample_loop imencode k' ?s0 = Finished s1"
      and s: "s = s1\<lparr>video := release (video s1)\<rparr>"
      by (rule extract_frames_finished)
    with assms(1) have run: "sample_loop imencode k ?s0 = Finished s1" by simp
    have "length (base64Frames s1) = ?C"
      by (simp only: sample_loop_from_start(1) [OF run assms(2) k] length_map length_upt diff_zero)
    then have "length ?frames = ?C"
      using that s by simp
    then have "set ?idx = {i. i < length (stream v) \<and> i mod nat k = 0}"
      using set_multiples [OF K, of "length (stream v)"] by simp
    then show ?thesis
      by (simp add: int_mod_nat [OF k])
  qed
  have fin: "\<exists>s. ?out = Finished s" if "\<forall>f \<in> set (stream v). \<exists>buffer. imencode f = Inr buffer"
  proof -
    from assms that obtain s1 where
      "?out = Finished (s1\<lparr>video := release (video s1)\<rparr>)"
      by (rule extract_frames_run)
    then show ?thesis by blast
  qed
  show ?thesis
    unfolding Let_def
  proof (intro conjI impI)
    show "?frames = map (\<lambda>i. b64encode (projr (imencode (stream v ! i)))) ?idx"
      by (fact enc)
    show "sorted_wrt (<) ?idx"
      by (fact sorted)
    show "\<forall>i \<in> set ?idx. i < length (stream v) \<and> int i mod k = 0"
      by (fact below)
    show "set ?idx = {i. i < length (stream v) \<and> int i mod k = 0}" if "\<exists>s. ?out = Finished s"
    proof -
      from that obtain s where "?out = Finished s" ..
      then show ?thesis by (rule full)
    qed
    show "\<exists>s. ?out = Finished s" if "\<forall>f \<in> set (stream v). \<exists>buffer. imencode f = Inr buffer"
      using that by (rule fin)
  qed
qed


theorem sampled_positions_witness:
  "(let v = \<lparr>opened = True, prop_fps = Finite 2, stream = [10, 11, 12, 13, 14 :: nat], releases = 0\<rparr>;
        imencode = (\<lambda>f. Inr [of_nat f]);
        round_quot = (\<lambda>a w. NaN);
        out = extract_frames imencode round_quot (Finite 1) v
    in frame_skip round_quot (get_fps v) (Finite 1) = Inr 2
       \<and> opened v
       \<and> (\<forall>f \<in> set (stream v). \<exists>buffer. imencode f = Inr buffer)
       \<and> out = Finished
            \<lparr>video = \<lparr>opened = False, prop_fps = Finite 2, stream = [], releases = 1\<rparr>,
             base64Frames = [''Cg=='', ''DA=='', ''Dg==''], frame_count = 5\<rparr>
       \<and> map (\<lambda>j. j * nat 2) [0..<length (base64Frames (final_state out))] = [0, 2, 4]
       \<and> set (map (\<lambda>j. j * nat 2) [0..<length (base64Frames (final_state out))])
           = {i. i < length (stream v) \<and> int i mod 2 = 0})"
proof -
  let ?v = "\<lparr>opened = True, prop_fps = Finite 2, stream = [10, 11, 12, 13, 14 :: nat], releases = 0\<rparr>"
  have skip: "frame_skip (\<lambda>a w. NaN) (get_fps ?v) (Finite 1) = Inr 2"
    by (simp add: frame_skip_def get_fps_def exact_range_def)
  have run: "extract_frames (\<lambda>f. Inr [of_nat f]) (\<lambda>a w. NaN) (Finite 1) ?v
     = Finished
            \<lparr>video = \<lparr>opened = False, prop_fps = Finite 2, stream = [], releases = 1\<rparr>,
             base64Frames = [''Cg=='', ''DA=='', ''Dg==''], frame_count = 5\<rparr>"
    by (simp add: extract_frames_def frame_skip_def get_fps_def release_def exact_range_def
        sample_loop_step sample_loop_end b64_char_def b64_alphabet_def)
  have up: "[0..<3] = [0, 1, 2]"
    by (simp add: upt_rec)
  from sampled_positions [OF skip, of "\<lambda>f. Inr [of_nat f]"] skip
  show ?thesis
    by (simp add: Let_def run up)
qed

text \<open>
  C4. For every run of the extraction cell that reaches its end, the request built from
  \<^verbatim>\<open>base64Frames\<close> has as many image parts as there are collected frames. Its first part
  is the text part, which carries the instruction of the notebook under \<^verbatim>\<open>text\<close>, and
  all the others are the image parts. The image URLs are the data URIs of the encoded
  frames at strictly increasing positions of the stream.
\<close>

theorem request_images:
  assumes "extract_frames imencode round_quot target_fps v = Finished s"
  shows "(let parts = request_content (messages detail (base64Frames s));
              images = filter is_image parts
          in length images = length (base64Frames s)
             \<and> part_type (hd parts) = Some (PStr ''text'')
             \<and> dict_get ''text'' (hd parts)
                 = Some (PStr ''These are frames from a video. Please describe what happens in the video.'')
             \<and> \<not> is_image (hd parts)
             \<and> tl parts = images
             \<and> (\<exists>idx. sorted_wrt (<) idx \<and> (\<forall>i \<in> set idx. i < length (stream v))
                  \<and> map image_url images
                      = map (\<lambda>i. Some (PStr (data_uri (b64encode (projr (imencode (stream v ! i)))))))
                          idx))"
proof -
  from assms obtain k s1 where
    skip: "frame_skip round_quot (get_fps v) target_fps = Inr k"
    and run: "sample_loop imencode k \<lparr>video = v, base64Frames = [], frame_count = 0\<rparr> = Finished s1"
    and s: "s = s1\<lparr>video := release (video s1)\<rparr>"
    by (rule extract_frames_finished)
  have k: "0 < k"
    using frame_skip_ge1 [OF skip] by simp
  then have K: "0 < nat k" by simp
  let ?enc = "\<lambda>i. b64encode (projr (imencode (stream v ! i)))"
  have "\<exists>idx. sorted_wrt (<) idx \<and> (\<forall>i \<in> set idx. i < length (stream v))
          \<and> base64Frames s1 = map ?enc idx"
  proof (cases "opened v")
    case True
    let ?idx = "map (\<lambda>j. j * nat k) [0..<(length (stream v) + nat k - 1) div nat k]"
    have "base64Frames s1 = map ?enc ?idx"
      by (simp only: sample_loop_from_start(1) [OF run True k] map_map comp_def)
    moreover have "sorted_wrt (<) ?idx"
      by (rule sorted_multiples [OF K])
    moreover have "\<forall>i \<in> set ?idx. i < length (stream v)"
      by (simp only: set_multiples [OF K]) simp
    ultimately show ?thesis by blast
  next
    case False
    then have "s1 = \<lparr>video = v, base64Frames = [], frame_count = 0\<rparr>"
      using run by (simp add: sample_loop_closed)
    then have "base64Frames s1 = map ?enc []" by simp
    then show ?thesis by (intro exI [of _ "[]"]) simp
  qed
  then obtain idx where idx: "sorted_wrt (<) idx" "\<forall>i \<in> set idx. i < length (stream v)"
    "base64Frames s = map ?enc idx"
    using s by auto
  have "map image_url (map (image_part detail) (base64Frames s))
      = map (\<lambda>i. Some (PStr (data_uri (?enc i)))) idx"
    by (simp add: idx(3) image_url_image_part comp_def)
  with idx(1,2) have "\<exists>idx. sorted_wrt (<) idx \<and> (\<forall>i \<in> set idx. i < length (stream v))
      \<and> map image_url (map (image_part detail) (base64Frames s))
          = map (\<lambda>i. Some (PStr (data_uri (?enc i)))) idx"
    by blast
  moreover have "part_type text_part = Some (PStr ''text'')"
    by (simp add: part_type_def text_part_def)
  moreover have "dict_get ''text'' text_part
      = Some (PStr ''These are frames from a video. Please describe what happens in the video.'')"
    by (simp add: text_part_def)
  moreover note is_image_text_part
  ultimately show ?thesis
    unfolding Let_def images_of_request
    unfolding request_content_messages
    by simp
qed

theorem request_images_witness:
  "extract_frames (\<lambda>f. Inr [of_nat f]) (\<lambda>a w. NaN) (Finite 1)
     \<lparr>opened = True, prop_fps = Finite 2, stream = [10, 11, 12, 13, 14 :: nat], releases = 0\<rparr>
   = Finished \<lparr>video = \<lparr>opened = False, prop_fps = Finite 2, stream = [], releases = 1\<rparr>,
               base64Frames = [''Cg=='', ''DA=='', ''Dg==''], frame_count = 5\<rparr>
   \<and> length (filter is_image (request_content (messages ''low'' [''Cg=='', ''DA=='', ''Dg==''])))
       = 3
   \<and> part_type (hd (request_content (messages ''low'' [''Cg=='', ''DA=='', ''Dg==''])))
       = Some (PStr ''text'')
   \<and> dict_get ''text'' (hd (request_content (messages ''low'' [''Cg=='', ''DA=='', ''Dg==''])))
       = Some (PStr ''These are frames from a video. Please describe what happens in the video.'')"
proof -
  have run: "extract_frames (\<lambda>f. Inr [of_nat f]) (\<lambda>a w. NaN) (Finite 1)
     \<lparr>opened = True, prop_fps = Finite 2, stream = [10, 11, 12, 13, 14 :: nat], releases = 0\<rparr>
   = Finished \<lparr>video = \<lparr>opened = False, prop_fps = Finite 2, stream = [], releases = 1\<rparr>,
               base64Frames = [''Cg=='', ''DA=='', ''Dg==''], frame_count = 5\<rparr>"
    by (simp add: extract_frames_def frame_skip_def get_fps_def release_def
        sample_loop_step sample_loop_end b64_char_def b64_alphabet_def exact_range_def)
  from request_images [OF run, of "''low''"] run show ?thesis
    by (simp add: Let_def)
qed

text \<open>
  C9, as amended. \<^verbatim>\<open>video.release()\<close> runs exactly once, and leaves the capture closed,
  when the cell reaches its end, that is when the loop stops at the end of the stream or at
  a failed read. When an exception leaves the cell (the stride computation or
  \<^verbatim>\<open>cv2.imencode\<close> raises) the following statements are not run: the capture is not
  released and stays as it was.
\<close>

theorem release_on_exit:
  "releases (video (final_state (extract_frames imencode round_quot target_fps v)))
     = releases v + (case extract_frames imencode round_quot target_fps v of Finished s \<Rightarrow> 1 | Raised e s \<Rightarrow> 0)
   \<and> opened (video (final_state (extract_frames imencode round_quot target_fps v)))
     = (case extract_frames imencode round_quot target_fps v of Finished s \<Rightarrow> False | Raised e s \<Rightarrow> opened v)"
proof (cases "frame_skip round_quot (get_fps v) target_fps")
  case (Inl e)
  then show ?thesis by (simp add: extract_frames_def)
next
  case (Inr k)
  let ?s0 = "\<lparr>video = v, base64Frames = [], frame_count = 0\<rparr>"
  note keep = sample_loop_keeps_handle [of imencode k ?s0]
  show ?thesis
  proof (cases "sample_loop imencode k ?s0")
    case (Finished s1)
    with keep Inr show ?thesis
      by (simp add: extract_frames_def release_def)
  next
    case (Raised e s1)
    with keep Inr show ?thesis
      by (simp add: extract_frames_def)
  qed
qed

theorem release_on_exit_witness:
  "releases (video (final_state (extract_frames (\<lambda>f. Inr [of_nat f]) (\<lambda>a w. NaN) (Finite 1)
     \<lparr>opened = True, prop_fps = Finite 2, stream = [10, 11, 12 :: nat], releases = 0\<rparr>))) = 1
   \<and> extract_frames (\<lambda>f. Inr [of_nat f]) (\<lambda>a w. NaN) (Finite 1)
     \<lparr>opened = True, prop_fps = Finite 2, stream = [10, 11, 12 :: nat], releases = 0\<rparr>
     = Finished \<lparr>video = \<lparr>opened = False, prop_fps = Finite 2, stream = [], releases = 1\<rparr>,
               base64Frames = [''Cg=='', ''DA==''], frame_count = 3\<rparr>"
proof -
  have run: "extract_frames (\<lambda>f. Inr [of_nat f]) (\<lambda>a w. NaN) (Finite 1)
     \<lparr>opened = True, prop_fps = Finite 2, stream = [10, 11, 12 :: nat], releases = 0\<rparr>
     = Finished \<lparr>video = \<lparr>opened = False, prop_fps = Finite 2, stream = [], releases = 1\<rparr>,
               base64Frames = [''Cg=='', ''DA==''], frame_count = 3\<rparr>"
    by (simp add: extract_frames_def frame_skip_def get_fps_def release_def
        sample_loop_step sample_loop_end b64_char_def b64_alphabet_def exact_range_def)
  from release_on_exit [of "\<lambda>f. Inr [of_nat f]" "\<lambda>a w. NaN" "Finite 1"
      "\<lparr>opened = True, prop_fps = Finite 2, stream = [10, 11, 12 :: nat], releases = 0\<rparr>"]
  show ?thesis
    by (simp add: run)
qed

theorem release_on_failure_counterexample:
  "extract_frames (\<lambda>f. if f = 12 then Inl CvError else Inr [of_nat f]) (\<lambda>a w. NaN)
         (Finite 1)
     \<lparr>opened = True, prop_fps = Finite 2, stream = [10, 11, 12, 13, 14 :: nat], releases = 0\<rparr>
   = Raised CvError
       \<lparr>video = \<lparr>opened = True, prop_fps = Finite 2, stream = [13, 14], releases = 0\<rparr>,
        base64Frames = [''Cg==''], frame_count = 2\<rparr>
   \<and> releases (video (final_state
         (extract_frames (\<lambda>f. if f = 12 then Inl CvError else Inr [of_nat f]) (\<lambda>a w. NaN)
         (Finite 1)
            \<lparr>opened = True, prop_fps = Finite 2, stream = [10, 11, 12, 13, 14 :: nat],
               releases = 0\<rparr>))) \<noteq> 1"
  by (simp add: extract_frames_def frame_skip_def get_fps_def release_def
      sample_loop_step sample_loop_end b64_char_def b64_alphabet_def exact_range_def)

text \<open>
  C10. Taking the prefix \<^verbatim>\<open>data:image/jpeg;base64,\<close> off the URL of an image part and
  decoding the rest as Base64 gives back the compressed buffer, byte for byte.
\<close>

theorem data_uri_round_trip:
  "Option.bind (strip_prefix ''data:image/jpeg;base64,'' (data_uri (b64encode buffer))) b64decode
     = Some buffer
   \<and> image_url (image_part detail (b64encode buffer)) = Some (PStr (data_uri (b64encode buffer)))"
  by (simp add: strip_prefix_def data_uri_def b64decode_b64encode image_url_def image_part_def)

text \<open>
  C5 asks for the detail level as a plain value in every image part. The source writes
  \<^verbatim>\<open>"detail": {detail}\<close>: with \<^verbatim>\<open>detail = "low"\<close> every image part carries the
  one-element set \<^verbatim>\<open>{"low"}\<close>, which is not the string \<^verbatim>\<open>"low"\<close>.
\<close>

theorem detail_is_a_set:
  "map image_detail (tl (request_content (messages ''low'' [''Cg=='', ''DA=='']))) 
     = [Some (PSet {''low''}), Some (PSet {''low''})]
   \<and> image_detail (image_part ''low'' ''Cg=='') \<noteq> Some (PStr ''low'')"
  by (simp add: messages_def image_detail_def image_part_def)

text \<open>
  C6. The costs are the token counts over a million times the prices 2 and 8, their sum,
  and the sum over the number of frames when there is at least one frame. For 5100 input
  tokens, 300 output tokens and 30 frames they are 0.0102, 0.0024, 0.0126 and 0.00042.
\<close>

theorem cost_breakdown:
  "input_cost input_tokens = of_int input_tokens / 1000000 * 2
   \<and> output_cost output_tokens = of_int output_tokens / 1000000 * 8
   \<and> total_cost input_tokens output_tokens = input_cost input_tokens + output_cost output_tokens
   \<and> (0 < length frames \<longrightarrow>
        cost_per_frame input_tokens output_tokens frames
          = Inr (total_cost input_tokens output_tokens / of_nat (length frames)))
   \<and> input_cost 5100 = 102 / 10000
   \<and> output_cost 300 = 24 / 10000
   \<and> total_cost 5100 300 = 126 / 10000
   \<and> (length frames = 30 \<longrightarrow> cost_per_frame 5100 300 frames = Inr (42 / 100000))"
  by (simp add: input_cost_def output_cost_def total_cost_def cost_per_frame_def)

theorem cost_breakdown_witness:
  "0 < length (replicate 30 ''Cg=='') \<and> length (replicate 30 ''Cg=='') = 30
   \<and> cost_per_frame 5100 300 (replicate 30 ''Cg=='') = Inr (42 / 100000)
   \<and> cost_per_frame 5100 300 (replicate 30 ''Cg=='')
       = Inr (total_cost 5100 300 / of_nat (length (replicate 30 ''Cg=='')))"
  using cost_breakdown [of 5100 300 "replicate 30 ''Cg==''"]
  by simp

text \<open>
  C7. With no frames the cost per frame is not a number: the division raises
  \<^verbatim>\<open>ZeroDivisionError\<close>. Whenever a cost per frame is returned there is at least one
  frame and the value is the total cost over the number of frames.
\<close>

theorem cost_per_frame_no_frames:
  "cost_per_frame input_tokens output_tokens [] = Inl ZeroDivisionError
   \<and> (\<forall>c. cost_per_frame input_tokens output_tokens frames = Inr c \<longrightarrow>
          frames \<noteq> [] \<and> c = total_cost input_tokens output_tokens / of_nat (length frames))"
  by (auto simp: cost_per_frame_def)

theorem cost_per_frame_no_frames_witness:
  "cost_per_frame 5100 300 ([] :: string list) = Inl ZeroDivisionError
   \<and> cost_per_frame 5100 300 [''Cg==''] = Inr (126 / 10000)
   \<and> [''Cg==''] \<noteq> []"
  using cost_per_frame_no_frames [of 5100 300 "[''Cg=='']"]
  by (simp add: cost_per_frame_def total_cost_def input_cost_def output_cost_def)

end
